theory Spec2Isabelle
  imports Main "HOL-Library.Word"
begin

unbundle bit_operations_syntax

section \<open>The uLanding rangefinder driver (AP\_RangeFinder\_uLanding.cpp)\<close>

text \<open>
  The driver reads a serial byte stream, decides once which firmware dialect the sensor
  speaks (\<open>detect_version\<close>) and then decodes frames into a distance (\<open>get_reading\<close>).
  The C++ object is a record of its fields, each member function takes the record and
  returns it updated, the two \<open>while (nbytes-- > 0)\<close> loops are recursions over the bytes
  that \<open>uart->available()\<close> reported at entry (as many as the \<open>int16_t\<close> counter of
  the loop lets through, see \<open>nbytes_of\<close>), and the serial port is an optional list:
  \<open>None\<close> is \<open>uart == nullptr\<close>, \<open>Some rx\<close> the bytes waiting to be read, in order.
  A function that reads returns the port with the bytes it has not read. Within one call of
  \<open>get_reading\<close> the port is taken as it stands: what \<open>detect_version\<close> leaves unread
  is what the second \<open>available()\<close> reports. The serial driver itself (\<open>available\<close>,
  \<open>read\<close>) is outside this file, as are the scheduler and the clock.
\<close>

type_synonym u8 = "8 word"
type_synonym u16 = "16 word"
type_synonym u32 = "32 word"

subsection \<open>Constants and data\<close>

definition ULANDING_HDR :: u8 where
  "ULANDING_HDR = 254"

definition ULANDING_HDR_V0 :: u8 where
  "ULANDING_HDR_V0 = 72"

text \<open>
  Modelled from the spec: the class declaration (AP\_RangeFinder\_uLanding.h) is not among
  the sources, so the frame buffer \<open>uint8_t linebuf[6]\<close> takes its capacity from the
  spec (six bytes, indices 0..5, for a checksummed frame) and from the comment "collected
  six bytes of data" in \<open>get_reading\<close>. The array is a value with exactly six cells.
\<close>

datatype linebuf_t = Linebuf u8 u8 u8 u8 u8 u8

definition linebuf_size :: nat where
  "linebuf_size = 6"

fun lb_get :: "linebuf_t \<Rightarrow> nat \<Rightarrow> u8" where
  "lb_get (Linebuf b0 b1 b2 b3 b4 b5) i =
     (if i = 0 then b0 else if i = 1 then b1 else if i = 2 then b2
      else if i = 3 then b3 else if i = 4 then b4 else b5)"

fun lb_set :: "linebuf_t \<Rightarrow> nat \<Rightarrow> u8 \<Rightarrow> linebuf_t" where
  "lb_set (Linebuf b0 b1 b2 b3 b4 b5) i c =
     (if i = 0 then Linebuf c b1 b2 b3 b4 b5
      else if i = 1 then Linebuf b0 c b2 b3 b4 b5
      else if i = 2 then Linebuf b0 b1 c b3 b4 b5
      else if i = 3 then Linebuf b0 b1 b2 c b4 b5
      else if i = 4 then Linebuf b0 b1 b2 b3 c b5
      else Linebuf b0 b1 b2 b3 b4 c)"

text \<open>
  The private fields of the driver: \<open>_version_known\<close>, \<open>_version\<close>, \<open>_header\<close>,
  \<open>linebuf\<close> and \<open>linebuf_len\<close> (an unsigned byte).
\<close>

record driver =
  version_known :: bool
  version :: u8
  header :: u8
  linebuf :: linebuf_t
  linebuf_len :: u8

text \<open>
  What can go wrong below the level of the C++ source: a write past the end of
  \<open>linebuf\<close>, and a float whose truncated value does not fit the \<open>uint16_t\<close> it is
  assigned to. Both are undefined behaviour in C++; the model stops with a fault.
\<close>

datatype fault = Linebuf_Overrun | Float_To_U16_Undefined

subsection \<open>Single-precision arithmetic as the driver uses it\<close>

text \<open>
  \<open>float sum\<close> only ever holds a non-negative whole number (it starts at 0 and integers
  are added to it), so it is a \<open>nat\<close>: the value of the float. Every operation rounds its
  exact result to the nearest value with a 24-bit significand, ties to even, as IEEE 754
  binary32 does on the flight controllers' single-precision units. The values stay far
  below the largest float, so no operation overflows. \<open>rne a b\<close> is the integer
  nearest to \<open>a / b\<close>, ties to even; \<open>nbits n\<close> is the number of binary digits of \<open>n\<close>.
\<close>

definition rne :: "nat \<Rightarrow> nat \<Rightarrow> nat" where
  "rne a b =
     (let d = a div b; r = a mod b
      in if 2 * r < b then d
         else if b < 2 * r then d + 1
         else if even d then d else d + 1)"

fun nbits :: "nat \<Rightarrow> nat" where
  "nbits n = (if n = 0 then 0 else Suc (nbits (n div 2)))"

declare nbits.simps [simp del]

text \<open>Rounding a whole number to binary32: keep the 24 leading bits.\<close>

definition f32_rnd :: "nat \<Rightarrow> nat" where
  "f32_rnd n = (let k = nbits n - 24 in rne n (2 ^ k) * 2 ^ k)"

text \<open>\<open>sum += v\<close> for an \<open>int\<close> \<open>v\<close> below \<open>2^24\<close> (converted to float exactly).\<close>

definition f32_add :: "nat \<Rightarrow> nat \<Rightarrow> nat" where
  "f32_add s v = f32_rnd (s + v)"

text \<open>
  \<open>sum / count\<close> followed by the truncation of the assignment to an integer: the
  quotient \<open>a / b\<close> is rounded to 24 significant bits and then cut to a whole number.
  With \<open>2^e \<le> a / b < 2^(e+1)\<close> the unit in the last place is \<open>2^(e-23)\<close>. A quotient
  below one rounds to at most 1.0, and reaches it only from \<open>1 - 2^-25\<close> on.
\<close>

definition f32_div_trunc :: "nat \<Rightarrow> nat \<Rightarrow> nat" where
  "f32_div_trunc a b =
     (if a < b then (if (2 ^ 25 - 1) * b \<le> 2 ^ 25 * a then 1 else 0)
      else
        let e = nbits (a div b) - 1
        in if 23 \<le> e then rne a (b * 2 ^ (e - 23)) * 2 ^ (e - 23)
           else rne (a * 2 ^ (23 - e)) b div 2 ^ (23 - e))"

text \<open>
  \<open>reading_cm *= 2.5f\<close>: the product of a 16-bit value and 2.5 is exact in binary32;
  the assignment truncates it.
\<close>

definition f32_scale_trunc :: "u16 \<Rightarrow> nat" where
  "f32_scale_trunc r = (unat r * 5) div 2"

text \<open>Assigning a truncated float to \<open>uint16_t\<close>: defined only when the value fits.\<close>

definition to_u16 :: "nat \<Rightarrow> fault + u16" where
  "to_u16 n = (if n < 65536 then Inr (word_of_nat n) else Inl Float_To_U16_Undefined)"

subsection \<open>detect\_version\<close>

text \<open>
  The loop of \<open>detect_version\<close> with its locals \<open>hdr_found\<close>, \<open>byte1\<close> and \<open>count\<close>.
  It returns the result of the function, the driver, and the bytes it left unread.
\<close>

fun detect_loop :: "u8 list \<Rightarrow> bool \<Rightarrow> u8 \<Rightarrow> u8 \<Rightarrow> driver \<Rightarrow> bool \<times> driver \<times> u8 list" where
  "detect_loop [] hdr_found byte1 count d = (False, d, [])"
| "detect_loop (c # rx) hdr_found byte1 count d =
     (if (c = ULANDING_HDR_V0 \<or> c = ULANDING_HDR) \<and> \<not> hdr_found then
        detect_loop rx True c (count + 1) d
      else if hdr_found then
        (if byte1 = ULANDING_HDR_V0 then
           (if count + 1 < 4 then detect_loop rx hdr_found byte1 (count + 1) d
            else if c = byte1 then
              (True, d\<lparr>version := 0, header := ULANDING_HDR_V0, version_known := True\<rparr>, rx)
            else detect_loop rx False 0 0 d)
         else
           (if c AND 0x80 \<noteq> 0 \<or> c = ULANDING_HDR_V0 then detect_loop rx False 0 0 d
            else
              (True, d\<lparr>version := c, header := ULANDING_HDR, version_known := True\<rparr>, rx)))
      else detect_loop rx hdr_found byte1 count d)"

text \<open>
  \<open>int16_t nbytes = uart->available()\<close>: the count of waiting bytes is narrowed to a
  signed 16-bit value (its low 16 bits in two's complement, as the compilers of the
  targets do), and \<open>while (nbytes-- > 0)\<close> runs that many times when it is positive and
  not at all otherwise. So a loop reads every waiting byte while there are at most 32767
  of them, and nothing at all when there are between 32768 and 65535.
\<close>

definition nbytes_of :: "u8 list \<Rightarrow> nat" where
  "nbytes_of rx =
     (let nbytes = sint (word_of_nat (length rx) :: 16 word)
      in if 0 < nbytes then nat nbytes else 0)"

definition detect_version :: "driver \<Rightarrow> u8 list option \<Rightarrow> bool \<times> driver \<times> u8 list option" where
  "detect_version d uart =
     (if version_known d then (True, d, uart)
      else case uart of
        None \<Rightarrow> (False, d, None)
      | Some rx \<Rightarrow>
          (case detect_loop (take (nbytes_of rx) rx) False 0 0 d of
             (r, d', rx') \<Rightarrow> (r, d', Some (rx' @ drop (nbytes_of rx) rx))))"

subsection \<open>get\_reading\<close>

text \<open>The two frame formulas and the checksum test, on the frame buffer.\<close>

definition raw_v0 :: "linebuf_t \<Rightarrow> nat" where
  "raw_v0 lb = unat (lb_get lb 2 AND 0x7F) * 128 + unat (lb_get lb 1 AND 0x7F)"

definition raw_v1 :: "linebuf_t \<Rightarrow> nat" where
  "raw_v1 lb = unat (lb_get lb 3) * 256 + unat (lb_get lb 2)"

definition checksum_ok :: "linebuf_t \<Rightarrow> bool" where
  "checksum_ok lb \<longleftrightarrow>
     (unat (lb_get lb 1) + unat (lb_get lb 2) + unat (lb_get lb 3) + unat (lb_get lb 4)) mod 256
       = unat (lb_get lb 5)"

text \<open>
  The loop of \<open>get_reading\<close> with its locals \<open>hdr_found\<close>, \<open>sum\<close> (here \<open>fsum\<close>) and \<open>count\<close>. The
  write \<open>linebuf[linebuf_len++] = c\<close> faults when the index is outside the array.
\<close>

fun read_loop :: "u8 list \<Rightarrow> bool \<Rightarrow> nat \<Rightarrow> u16 \<Rightarrow> driver \<Rightarrow> fault + (nat \<times> u16 \<times> driver)" where
  "read_loop [] hdr_found fsum count d = Inr (fsum, count, d)"
| "read_loop (c # rx) hdr_found fsum count d =
     (let located = (c = header d \<and> \<not> hdr_found);
          d1 = (if located then d\<lparr>linebuf_len := 0\<rparr> else d);
          hdr_found1 = (if located then True else hdr_found)
      in if hdr_found1 then
           (if linebuf_size \<le> unat (linebuf_len d1) then Inl Linebuf_Overrun
            else
              let d2 = d1\<lparr>linebuf := lb_set (linebuf d1) (unat (linebuf_len d1)) c,
                          linebuf_len := linebuf_len d1 + 1\<rparr>
              in if unat (linebuf_len d2) < linebuf_size
                    \<or> (version d2 = 0 \<and> unat (linebuf_len d2) < 3)
                 then read_loop rx hdr_found1 fsum count d2
                 else if version d2 = 0 then
                   read_loop rx False (f32_add fsum (raw_v0 (linebuf d2))) (count + 1)
                     (d2\<lparr>linebuf_len := 0\<rparr>)
                 else if checksum_ok (linebuf d2) then
                   read_loop rx False (f32_add fsum (raw_v1 (linebuf d2))) (count + 1)
                     (d2\<lparr>linebuf_len := 0\<rparr>)
                 else read_loop rx False fsum count (d2\<lparr>linebuf_len := 0\<rparr>))
         else read_loop rx hdr_found1 fsum count d1)"

text \<open>
  \<open>get_reading d uart reading_cm\<close>: \<open>reading_cm\<close> is the caller's variable passed by
  reference; the result carries its value after the call.
\<close>

definition get_reading ::
  "driver \<Rightarrow> u8 list option \<Rightarrow> u16 \<Rightarrow> fault + (bool \<times> u16 \<times> driver \<times> u8 list option)" where
  "get_reading d uart reading_cm =
     (case uart of
        None \<Rightarrow> Inr (False, reading_cm, d, None)
      | Some rx0 \<Rightarrow>
          (case detect_version d uart of
             (False, d', uart') \<Rightarrow> Inr (False, reading_cm, d', uart')
           | (True, d', uart') \<Rightarrow>
               (let rx = (case uart' of None \<Rightarrow> [] | Some rx \<Rightarrow> rx);
                    nbytes = nbytes_of rx;
                    uart'' = Some (drop nbytes rx)
                in case read_loop (take nbytes rx) False 0 0 d' of
                  Inl f \<Rightarrow> Inl f
                | Inr (fsum, count, d'') \<Rightarrow>
                    if count = 0 then Inr (False, reading_cm, d'', uart'')
                    else
                      (case to_u16 (f32_div_trunc fsum (unat count)) of
                         Inl f \<Rightarrow> Inl f
                       | Inr r \<Rightarrow>
                           if version d'' = 0 then
                             (case to_u16 (f32_scale_trunc r) of
                                Inl f \<Rightarrow> Inl f
                              | Inr r' \<Rightarrow> Inr (True, r', d'', uart''))
                           else Inr (True, r, d'', uart'')))))"

subsection \<open>update\<close>

text \<open>
  The part of the sensor state that \<open>update\<close> touches. \<open>update_status\<close> and
  \<open>set_status\<close> belong to the backend class, which is not among the sources: the status
  that \<open>update_status\<close> computes from the distance is a parameter, as are the
  no-data status and the clock \<open>AP_HAL::millis()\<close>.
\<close>

record 's sensor =
  drv :: driver
  distance_cm :: u16
  last_reading_ms :: u32
  status :: 's

definition update ::
  "(u16 \<Rightarrow> 's) \<Rightarrow> 's \<Rightarrow> u32 \<Rightarrow> 's sensor \<Rightarrow> u8 list option \<Rightarrow> fault + ('s sensor \<times> u8 list option)" where
  "update update_status no_data millis s uart =
     (case get_reading (drv s) uart (distance_cm s) of
        Inl f \<Rightarrow> Inl f
      | Inr (True, r, d', uart') \<Rightarrow>
          Inr (s\<lparr>drv := d', distance_cm := r, last_reading_ms := millis,
                 status := update_status r\<rparr>, uart')
      | Inr (False, r, d', uart') \<Rightarrow>
          if 200 < millis - last_reading_ms s
          then Inr (s\<lparr>drv := d', distance_cm := r, status := no_data\<rparr>, uart')
          else Inr (s\<lparr>drv := d', distance_cm := r\<rparr>, uart'))"

subsection \<open>Vocabulary for the properties\<close>

text \<open>
  The dialect as the driver distinguishes it: nothing is decoded before \<open>_version_known\<close>
  is set, and afterwards \<open>get_reading\<close> tests \<open>_version == 0\<close> and nothing else to choose
  between the legacy formula and the checksummed one.
\<close>

datatype dialect = Unresolved | LegacyV0 | ChecksummedV1

definition dialect_of :: "driver \<Rightarrow> dialect" where
  "dialect_of d =
     (if \<not> version_known d then Unresolved
      else if version d = 0 then LegacyV0 else ChecksummedV1)"

text \<open>The three fields that \<open>detect_version\<close> sets.\<close>

definition latch :: "driver \<Rightarrow> bool \<times> u8 \<times> u8" where
  "latch d = (version_known d, version d, header d)"

text \<open>
  The values that the loop of \<open>get_reading\<close> adds to its sum, in order, read off the
  bytes it is given, for a stored version \<open>v\<close> and header byte \<open>h\<close>. It follows
  the code: bytes are skipped up to a header byte; the header byte and the five bytes after
  it fill the buffer, in either dialect; the search starts again behind them. Fewer than
  five bytes after a header byte give nothing.
\<close>

fun loop_values :: "u8 \<Rightarrow> u8 \<Rightarrow> u8 list \<Rightarrow> nat list" where
  "loop_values v h [] = []"
| "loop_values v h (c # rx) =
     (if c \<noteq> h then loop_values v h rx
      else if length rx < 5 then []
      else
        (let lb = Linebuf c (rx ! 0) (rx ! 1) (rx ! 2) (rx ! 3) (rx ! 4)
         in (if v = 0 then [raw_v0 lb] else if checksum_ok lb then [raw_v1 lb] else [])
            @ loop_values v h (drop 5 rx)))"


text \<open>
  What a caller can see of a call of \<open>get_reading\<close>: the result, \<open>reading_cm\<close>, the
  latch and the bytes left on the port, but not the frame buffer and its length.
\<close>

definition outcome_of ::
  "fault + (bool \<times> u16 \<times> driver \<times> u8 list option) \<Rightarrow>
   fault + (bool \<times> u16 \<times> (bool \<times> u8 \<times> u8) \<times> u8 list option)" where
  "outcome_of res =
     (case res of Inl f \<Rightarrow> Inl f | Inr (b, r, d, uart) \<Rightarrow> Inr (b, r, latch d, uart))"

section \<open>Properties\<close>

subsection \<open>Single-precision arithmetic is exact on small values\<close>

lemma nbits_0: "nbits 0 = 0"
  by (simp add: nbits.simps)

lemma nbits_pos: "0 < n \<Longrightarrow> nbits n = Suc (nbits (n div 2))"
  by (subst nbits.simps) simp

lemma nbits_upper: "n < 2 ^ nbits n"
proof (induction n rule: nbits.induct)
  case (1 n)
  show ?case
  proof (cases "n = 0")
    case True
    then show ?thesis by simp
  next
    case False
    with 1 have "n div 2 < 2 ^ nbits (n div 2)" by simp
    then have "n < 2 * 2 ^ nbits (n div 2)" by linarith
    with False show ?thesis by (simp add: nbits_pos)
  qed
qed

lemma nbits_lower: "0 < n \<Longrightarrow> 2 ^ (nbits n - 1) \<le> n"
proof (induction n rule: nbits.induct)
  case (1 n)
  show ?case
  proof (cases "n div 2 = 0")
    case True
    with 1(2) have "n = 1" by linarith
    then show ?thesis by (simp add: nbits_pos nbits_0)
  next
    case False
    with 1 have ih: "2 ^ (nbits (n div 2) - 1) \<le> n div 2" by simp
    from False have "nbits (n div 2) = Suc (nbits (n div 2) - 1)"
      by (simp add: nbits_pos)
    then have "2 ^ nbits (n div 2) = 2 * (2::nat) ^ (nbits (n div 2) - 1)"
      by (metis power_Suc)
    with ih have "2 ^ nbits (n div 2) \<le> n" by linarith
    with 1(2) show ?thesis by (simp add: nbits_pos)
  qed
qed

lemma nbits_le: "n < 2 ^ k \<Longrightarrow> nbits n \<le> k"
proof (rule ccontr)
  assume lt: "n < 2 ^ k" and "\<not> nbits n \<le> k"
  then have k: "k \<le> nbits n - 1" by simp
  then have "0 < nbits n" using \<open>\<not> nbits n \<le> k\<close> by simp
  then have "0 < n" by (cases "n = 0") (simp_all add: nbits_0)
  then have "2 ^ (nbits n - 1) \<le> n" by (rule nbits_lower)
  moreover have "(2::nat) ^ k \<le> 2 ^ (nbits n - 1)" using k by (simp add: power_increasing)
  ultimately show False using lt by linarith
qed






lemma rne_one: "rne n (Suc 0) = n"
  by (simp add: rne_def)

lemma f32_rnd_exact: "n < 2 ^ 24 \<Longrightarrow> f32_rnd n = n"
proof -
  assume "n < 2 ^ 24"
  then have "nbits n - 24 = 0" using nbits_le [of n 24] by simp
  then show ?thesis by (simp add: f32_rnd_def rne_one)
qed

lemma rne_lower: "a div b \<le> rne a b"
  by (simp add: rne_def Let_def)

lemma rne_upper: "0 < b \<Longrightarrow> rne a b \<le> (2 * a + b) div (2 * b)"
proof -
  assume b: "0 < b"
  define q r where "q = a div b" and "r = a mod b"
  have a: "a = q * b + r" by (simp add: q_def r_def)
  have le1: "q \<le> (2 * a + b) div (2 * b)"
  proof -
    have "q * (2 * b) \<le> 2 * a + b" using a by simp
    then show ?thesis using b by (simp add: less_eq_div_iff_mult_less_eq)
  qed
  show ?thesis
  proof (cases "2 * r < b")
    case True
    then show ?thesis using le1 by (simp add: rne_def Let_def q_def r_def)
  next
    case False
    then have "(q + 1) * (2 * b) \<le> 2 * a + b" using a by (simp add: algebra_simps)
    then have "q + 1 \<le> (2 * a + b) div (2 * b)"
      using b by (simp add: less_eq_div_iff_mult_less_eq)
    moreover have "rne a b \<le> q + 1" by (simp add: rne_def Let_def q_def)
    ultimately show ?thesis by linarith
  qed
qed

text \<open>
  Below \<open>2^24\<close> the rounded quotient never reaches the next whole number: the
  gap \<open>1 / b\<close> to it is wider than half a unit in the last place.
\<close>

lemma f32_div_trunc_exact:
  assumes a: "a < 2 ^ 24" and b0: "0 < b" and b25: "b < 2 ^ 25"
  shows "f32_div_trunc a b = a div b"
proof (cases "a < b")
  case True
  then have "2 ^ 25 * a + 2 ^ 25 \<le> 2 ^ 25 * b" by simp
  then have "\<not> (2 ^ 25 - 1) * b \<le> 2 ^ 25 * a" using b25 b0 by (simp add: algebra_simps diff_mult_distrib)
  with True show ?thesis by (simp add: f32_div_trunc_def)
next
  case False
  define d where "d = a div b"
  define e where "e = nbits d - 1"
  from False b0 have d1: "0 < d" by (simp add: d_def div_greater_zero_iff)
  have dlo: "2 ^ e \<le> d" unfolding e_def using d1 by (rule nbits_lower)
  have db: "d * b \<le> a" by (simp add: d_def)
  have ab: "a < (d + 1) * b" using b0 unfolding d_def
    by (metis Suc_eq_plus1 dividend_less_div_times mult.commute mult_Suc_right add.commute)
  have "d \<le> a" using db b0 by (metis One_nat_def Suc_leI le_trans mult.right_neutral mult_le_mono2)
  then have "d < 2 ^ 24" using a by linarith
  then have "nbits d \<le> 24" by (rule nbits_le)
  then have e23: "e \<le> 23" by (simp add: e_def)
  have eb: "2 ^ e * b < 2 ^ 24"
  proof -
    have "2 ^ e * b \<le> d * b" using dlo by simp
    then show ?thesis using db a by linarith
  qed
  show ?thesis
  proof (cases "e = 23")
    case True
    with eb have b1: "b = Suc 0" using b0 by simp
    have "f32_div_trunc a b =
            (let e = nbits (a div b) - 1
             in if 23 \<le> e then rne a (b * 2 ^ (e - 23)) * 2 ^ (e - 23)
                else rne (a * 2 ^ (23 - e)) b div 2 ^ (23 - e))"
      using False by (simp only: f32_div_trunc_def if_False)
    also have "\<dots> = rne a (b * 2 ^ (e - 23)) * 2 ^ (e - 23)"
      using True by (simp only: Let_def d_def [symmetric] e_def [symmetric]) simp
    also have "\<dots> = a" using True b1 by (simp add: rne_one)
    finally show ?thesis using b1 by simp
  next
    case ne: False
    define k where "k = 23 - e"
    from ne e23 have k1: "e + k = 23" by (simp add: k_def)
    have bk: "b < 2 * 2 ^ k"
    proof -
      have "e + Suc k = 24" using k1 by simp
      then have "(2::nat) ^ (e + Suc k) = 2 ^ 24" by (simp only:)
      then have "(2::nat) ^ 24 = 2 ^ e * (2 * 2 ^ k)" by (simp only: power_add power_Suc)
      with eb have "2 ^ e * b < 2 ^ e * (2 * 2 ^ k)" by (simp only:)
      then show ?thesis by (simp only: nat_mult_less_cancel_disj)
    qed
    define m where "m = rne (a * 2 ^ k) b"
    have lo: "d * 2 ^ k \<le> m"
    proof -
      have "d * 2 ^ k * b \<le> a * 2 ^ k" using db by (simp add: algebra_simps)
      then have "d * 2 ^ k \<le> (a * 2 ^ k) div b" using b0 by (simp add: less_eq_div_iff_mult_less_eq)
      then show ?thesis using rne_lower [of "a * 2 ^ k" b] by (simp add: m_def)
    qed
    have hi: "m < (d + 1) * 2 ^ k"
    proof -
      have "a + 1 \<le> (d + 1) * b" using ab by simp
      then have "(a + 1) * (2 * 2 ^ k) \<le> (d + 1) * b * (2 * 2 ^ k)" by (rule mult_le_mono1)
      then have "2 * (a * 2 ^ k) + 2 * 2 ^ k \<le> (d + 1) * 2 ^ k * (2 * b)" by (simp add: algebra_simps)
      with bk have "2 * (a * 2 ^ k) + b < (d + 1) * 2 ^ k * (2 * b)" by linarith
      then have "(2 * (a * 2 ^ k) + b) div (2 * b) < (d + 1) * 2 ^ k"
        using b0 by (simp add: div_less_iff_less_mult)
      then show ?thesis using rne_upper [OF b0, of "a * 2 ^ k"] by (simp add: m_def)
    qed
    have "m div 2 ^ k = d"
    proof -
      have "m div 2 ^ k < d + 1" using hi by (simp add: div_less_iff_less_mult)
      moreover have "d \<le> m div 2 ^ k" using lo by (simp add: less_eq_div_iff_mult_less_eq)
      ultimately show ?thesis by linarith
    qed
    moreover have "\<not> 23 \<le> e" using ne e23 by simp
    ultimately show ?thesis using False
      by (simp only: f32_div_trunc_def Let_def d_def [symmetric] e_def [symmetric]
            k_def [symmetric] m_def [symmetric] if_False)
  qed
qed

subsection \<open>The loop of get\_reading, frame by frame\<close>

lemma unat_inc: "unat (l::u8) < 6 \<Longrightarrow> unat (l + 1) = Suc (unat l)"
  by (simp add: unat_word_ariths)

lemma read_loop_skip:
  "c \<noteq> header d \<Longrightarrow> read_loop (c # rx) False s n d = read_loop rx False s n d"
  by (simp add: Let_def)

lemma read_loop_frame:
  "read_loop (header d # b1 # b2 # b3 # b4 # b5 # rx) False s n d =
     (let lb = Linebuf (header d) b1 b2 b3 b4 b5;
          d' = d\<lparr>linebuf := lb, linebuf_len := 0\<rparr>
      in if version d = 0 then read_loop rx False (f32_add s (raw_v0 lb)) (n + 1) d'
         else if checksum_ok lb then read_loop rx False (f32_add s (raw_v1 lb)) (n + 1) d'
         else read_loop rx False s n d')"
  by (cases "linebuf d") (simp add: Let_def linebuf_size_def)

lemma latch_simps [simp]:
  "latch (d\<lparr>linebuf := lb\<rparr>) = latch d"
  "latch (d\<lparr>linebuf_len := l\<rparr>) = latch d"
  by (simp_all add: latch_def)

lemma read_loop_in_frame:
  "unat (linebuf_len d) + length rx < 6 \<Longrightarrow>
   \<exists>d'. read_loop rx True s n d = Inr (s, n, d') \<and> latch d' = latch d"
proof (induction rx arbitrary: d)
  case Nil
  then show ?case by simp
next
  case (Cons c rx)
  let ?d2 = "d\<lparr>linebuf := lb_set (linebuf d) (unat (linebuf_len d)) c,
                 linebuf_len := linebuf_len d + 1\<rparr>"
  from Cons.prems have l: "unat (linebuf_len d) < 5" by simp
  then have u: "unat (linebuf_len d + 1) = Suc (unat (linebuf_len d))" by (simp add: unat_inc)
  with Cons.prems have "unat (linebuf_len ?d2) + length rx < 6" by simp
  from Cons.IH [OF this] obtain d' where
    "read_loop rx True s n ?d2 = Inr (s, n, d')" "latch d' = latch ?d2" by blast
  moreover have "read_loop (c # rx) True s n d = read_loop rx True s n ?d2"
    using l u by (simp add: Let_def linebuf_size_def)
  ultimately show ?case by simp
qed

lemma read_loop_partial:
  "length rx < 5 \<Longrightarrow>
   \<exists>d'. read_loop (header d # rx) False s n d = Inr (s, n, d') \<and> latch d' = latch d"
proof -
  assume len: "length rx < 5"
  let ?d2 = "d\<lparr>linebuf_len := 0, linebuf := lb_set (linebuf d) 0 (header d), linebuf_len := 1\<rparr>"
  have "read_loop (header d # rx) False s n d = read_loop rx True s n ?d2"
    by (simp add: Let_def linebuf_size_def)
  moreover from len have "unat (linebuf_len ?d2) + length rx < 6" by simp
  from read_loop_in_frame [OF this] obtain d' where
    "read_loop rx True s n ?d2 = Inr (s, n, d')" "latch d' = latch ?d2" by blast
  ultimately show ?thesis by (simp add: latch_def)
qed

lemma take5:
  "5 \<le> length rx \<Longrightarrow> rx = rx ! 0 # rx ! 1 # rx ! 2 # rx ! 3 # rx ! 4 # drop 5 rx"
  by (cases rx; simp; rename_tac a as; case_tac as; simp; rename_tac a as; case_tac as; simp;
      rename_tac a as; case_tac as; simp; rename_tac a as; case_tac as; simp)

text \<open>
  Started outside a frame the loop never faults, its sum is the single-precision sum of
  \<open>loop_values\<close> in order, its count their number, and it leaves the latch alone.
\<close>

lemma read_loop_loop_values:
  "header d = h \<Longrightarrow> version d = v \<Longrightarrow>
   \<exists>d'. read_loop rx False s n d =
          Inr (foldl f32_add s (loop_values v h rx),
               n + word_of_nat (length (loop_values v h rx)), d')
        \<and> latch d' = latch d"
proof (induction v h rx arbitrary: d s n rule: loop_values.induct)
  case (1 v h)
  then show ?case by simp
next
  case (2 v h c rx)
  show ?case
  proof (cases "c = h")
    case False
    with 2 show ?thesis by (simp add: read_loop_skip del: read_loop.simps)
  next
    case True
    show ?thesis
    proof (cases "length rx < 5")
      case short: True
      from read_loop_partial [OF short, of d s n] True 2(3) show ?thesis
        using short by (simp del: read_loop.simps)
    next
      case long: False
      define lb where "lb = Linebuf c (rx ! 0) (rx ! 1) (rx ! 2) (rx ! 3) (rx ! 4)"
      define d1 where "d1 = d\<lparr>linebuf := lb, linebuf_len := 0\<rparr>"
      have hd1: "header d1 = h" "version d1 = v" "latch d1 = latch d"
        using 2(3,4) by (simp_all add: d1_def)
      from long have rx: "rx = rx ! 0 # rx ! 1 # rx ! 2 # rx ! 3 # rx ! 4 # drop 5 rx"
        by (intro take5) simp
      have step: "read_loop (c # rx) False s n d =
         (if v = 0 then read_loop (drop 5 rx) False (f32_add s (raw_v0 lb)) (n + 1) d1
          else if checksum_ok lb then read_loop (drop 5 rx) False (f32_add s (raw_v1 lb)) (n + 1) d1
          else read_loop (drop 5 rx) False s n d1)"
        using read_loop_frame [of d "rx ! 0" "rx ! 1" "rx ! 2" "rx ! 3" "rx ! 4" "drop 5 rx" s n]
          True 2(3,4) rx by (simp add: Let_def lb_def d1_def del: read_loop.simps)
      have ih: "\<And>s n. \<exists>d'. read_loop (drop 5 rx) False s n d1 =
          Inr (foldl f32_add s (loop_values v h (drop 5 rx)),
               n + word_of_nat (length (loop_values v h (drop 5 rx))), d')
          \<and> latch d' = latch d1"
      proof -
        fix s n
        have nn: "\<not> c \<noteq> h" using True by simp
        show "\<exists>d'. read_loop (drop 5 rx) False s n d1 =
          Inr (foldl f32_add s (loop_values v h (drop 5 rx)),
               n + word_of_nat (length (loop_values v h (drop 5 rx))), d')
          \<and> latch d' = latch d1"
          by (rule 2(2) [OF nn long refl hd1(1) hd1(2)])
      qed
      have fv: "loop_values v h (c # rx) =
          (if v = 0 then [raw_v0 lb] else if checksum_ok lb then [raw_v1 lb] else [])
            @ loop_values v h (drop 5 rx)"
        using True long by (simp add: lb_def Let_def)
      show ?thesis
      proof (cases "v = 0")
        case v0: True
        from ih [of "f32_add s (raw_v0 lb)" "n + 1"] obtain d' where
          "read_loop (drop 5 rx) False (f32_add s (raw_v0 lb)) (n + 1) d1 =
             Inr (foldl f32_add (f32_add s (raw_v0 lb)) (loop_values v h (drop 5 rx)),
                  n + 1 + word_of_nat (length (loop_values v h (drop 5 rx))), d')"
          "latch d' = latch d1" by blast
        then show ?thesis unfolding fv step using v0 hd1(3)
          by (intro exI [of _ d']) (simp add: ac_simps)
      next
        case v1: False
        show ?thesis
        proof (cases "checksum_ok lb")
          case True
          from ih [of "f32_add s (raw_v1 lb)" "n + 1"] obtain d' where
            "read_loop (drop 5 rx) False (f32_add s (raw_v1 lb)) (n + 1) d1 =
               Inr (foldl f32_add (f32_add s (raw_v1 lb)) (loop_values v h (drop 5 rx)),
                    n + 1 + word_of_nat (length (loop_values v h (drop 5 rx))), d')"
            "latch d' = latch d1" by blast
          then show ?thesis unfolding fv step using v1 True hd1(3)
            by (intro exI [of _ d']) (simp add: ac_simps)
        next
          case False
          from ih [of s n] obtain d' where
            "read_loop (drop 5 rx) False s n d1 =
               Inr (foldl f32_add s (loop_values v h (drop 5 rx)),
                    n + word_of_nat (length (loop_values v h (drop 5 rx))), d')"
            "latch d' = latch d1" by blast
          then show ?thesis unfolding fv step using v1 False hd1(3)
            by (intro exI [of _ d']) simp
        qed
      qed
    qed
  qed
qed

subsection \<open>The loop of detect\_version\<close>

lemma hdr_neq: "ULANDING_HDR \<noteq> ULANDING_HDR_V0"
  by (simp add: ULANDING_HDR_def ULANDING_HDR_V0_def)

lemma detect_loop_skip:
  "c \<noteq> ULANDING_HDR_V0 \<Longrightarrow> c \<noteq> ULANDING_HDR \<Longrightarrow>
   detect_loop (c # rx) False b n d = detect_loop rx False b n d"
  by simp

lemma detect_loop_prefix:
  "ULANDING_HDR_V0 \<notin> set pre \<Longrightarrow> ULANDING_HDR \<notin> set pre \<Longrightarrow>
   detect_loop (pre @ rx) False b n d = detect_loop rx False b n d"
  by (induction pre) auto

lemma detect_loop_v1:
  "v AND 0x80 = 0 \<Longrightarrow> v \<noteq> ULANDING_HDR_V0 \<Longrightarrow>
   detect_loop (ULANDING_HDR # v # rx) False b n d =
     (True, d\<lparr>version := v, header := ULANDING_HDR, version_known := True\<rparr>, rx)"
  using hdr_neq by simp

lemma detect_loop_v0_restart:
  "c \<noteq> ULANDING_HDR_V0 \<Longrightarrow>
   detect_loop (ULANDING_HDR_V0 # a # b # c # rx) False 0 0 d = detect_loop rx False 0 0 d"
  by simp

lemma detect_loop_v0_confirm:
  "detect_loop (ULANDING_HDR_V0 # a # b # ULANDING_HDR_V0 # rx) False 0 0 d =
     (True, d\<lparr>version := 0, header := ULANDING_HDR_V0, version_known := True\<rparr>, rx)"
  by simp

lemma detect_loop_result:
  "detect_loop rx hf b n d = (r, d', rx') \<Longrightarrow>
   (r \<longrightarrow> version_known d') \<and> (\<not> r \<longrightarrow> d' = d \<and> rx' = [])"
  by (induction rx hf b n d rule: detect_loop.induct) (auto split: if_splits)

lemma detect_loop_indep:
  "detect_loop rx hf b n d2 =
     (case detect_loop rx hf b n d1 of
        (r, d', rx') \<Rightarrow>
          (r, if r then d2\<lparr>version := version d', header := header d', version_known := True\<rparr>
              else d2, rx'))"
  by (induction rx arbitrary: hf b n) (auto split: if_splits)

subsection \<open>The byte count of a call\<close>

lemma nbytes_of_small: "length rx \<le> 32767 \<Longrightarrow> nbytes_of rx = length rx"
proof -
  assume "length rx \<le> 32767"
  then have "sint (word_of_nat (length rx) :: 16 word) = int (length rx)"
    by (simp add: signed_of_nat signed_take_bit_int_eq_self)
  then show ?thesis by (simp add: nbytes_of_def Let_def)
qed

lemma nbytes_of_le: "nbytes_of rx \<le> 32767"
proof -
  have "sint (word_of_nat (length rx) :: 16 word) < 2 ^ (LENGTH(16) - 1)"
    by (rule sint_lt)
  then have "sint (word_of_nat (length rx) :: 16 word) < 32768" by simp
  then show ?thesis unfolding nbytes_of_def Let_def by (cases "0 < sint (word_of_nat (length rx) :: 16 word)") simp_all
qed



lemma loop_values_length: "6 * length (loop_values v h rx) \<le> length rx"
proof (induction v h rx rule: loop_values.induct)
  case (1 v h)
  then show ?case by simp
next
  case (2 v h c rx)
  show ?case
  proof (cases "c \<noteq> h")
    case True
    with 2(1) show ?thesis by simp
  next
    case False
    show ?thesis
    proof (cases "length rx < 5")
      case True
      with False show ?thesis by simp
    next
      case long: False
      from 2(2) [OF False long refl]
      have "6 * length (loop_values v h (drop 5 rx)) \<le> length rx - 5" by simp
      with False long show ?thesis by (auto simp: Let_def)
    qed
  qed
qed


subsection \<open>Single precision beyond the exact range\<close>

lemma f32_rnd_ge: 
  assumes "2 ^ 24 \<le> n"
  shows "2 ^ 24 \<le> f32_rnd n"
proof -
  define k where "k = nbits n - 24"
  have "\<not> nbits n \<le> 24"
  proof
    assume "nbits n \<le> 24"
    then have "(2::nat) ^ nbits n \<le> 2 ^ 24" by (intro power_increasing) simp_all
    with nbits_upper [of n] assms show False by linarith
  qed
  then have nb: "nbits n - 1 = 23 + k" and k1: "1 \<le> k" by (simp_all add: k_def)
  from assms have "0 < n" by simp
  from nbits_lower [OF this] have "2 ^ (23 + k) \<le> n" by (simp only: nb)
  then have lo: "2 ^ 23 * 2 ^ k \<le> n" by (simp only: power_add)
  have "2 ^ 23 \<le> n div 2 ^ k"
    using lo by (simp add: less_eq_div_iff_mult_less_eq)
  with rne_lower [of n "2 ^ k"] have r: "2 ^ 23 \<le> rne n (2 ^ k)" by linarith
  have p: "(2::nat) \<le> 2 ^ k"
  proof -
    have "(2::nat) ^ 1 \<le> 2 ^ k" using k1 by (intro power_increasing) simp_all
    then show ?thesis by simp
  qed
  from r p have "2 ^ 23 * 2 \<le> rne n (2 ^ k) * 2 ^ k" by (rule mult_le_mono)
  then show ?thesis by (simp add: f32_rnd_def Let_def k_def [symmetric])
qed

lemma f32_add_small: "f32_add s v < 2 ^ 24 \<Longrightarrow> s + v < 2 ^ 24 \<and> f32_add s v = s + v"
proof -
  assume a: "f32_add s v < 2 ^ 24"
  have "s + v < 2 ^ 24"
  proof (rule ccontr)
    assume "\<not> s + v < 2 ^ 24"
    then have "2 ^ 24 \<le> f32_rnd (s + v)" by (intro f32_rnd_ge) simp
    with a show False by (simp add: f32_add_def)
  qed
  then show ?thesis by (simp add: f32_add_def f32_rnd_exact)
qed

lemma foldl_f32_add_ge: "2 ^ 24 \<le> s \<Longrightarrow> 2 ^ 24 \<le> foldl f32_add s vs"
proof (induction vs arbitrary: s)
  case Nil
  then show ?case by simp
next
  case (Cons v vs)
  from Cons.prems have "2 ^ 24 \<le> f32_add s v"
    unfolding f32_add_def by (intro f32_rnd_ge) simp
  from Cons.IH [OF this] show ?case by simp
qed

lemma foldl_f32_add_small:
  "foldl f32_add s vs < 2 ^ 24 \<Longrightarrow> foldl f32_add s vs = s + sum_list vs"
proof (induction vs arbitrary: s)
  case Nil
  then show ?case by simp
next
  case (Cons v vs)
  have "f32_add s v < 2 ^ 24"
  proof (rule ccontr)
    assume "\<not> f32_add s v < 2 ^ 24"
    then have "2 ^ 24 \<le> foldl f32_add (f32_add s v) vs" by (intro foldl_f32_add_ge) simp
    with Cons.prems show False by simp
  qed
  from f32_add_small [OF this] have e: "f32_add s v = s + v" by simp
  from Cons.prems have "foldl f32_add (s + v) vs < 2 ^ 24" by (simp add: e)
  from Cons.IH [OF this] show ?case by (simp add: e add.assoc)
qed

subsection \<open>get\_reading and update as a whole\<close>

lemma get_reading_resolved:
  assumes "version_known d"
  shows "\<exists>d'. latch d' = latch d \<and>
           get_reading d (Some rx) r =
             (let vs = loop_values (version d) (header d) (take (nbytes_of rx) rx);
                  fsum = foldl f32_add 0 vs;
                  count = (word_of_nat (length vs) :: u16);
                  uart' = Some (drop (nbytes_of rx) rx)
              in if count = 0 then Inr (False, r, d', uart')
                 else case to_u16 (f32_div_trunc fsum (unat count)) of
                        Inl f \<Rightarrow> Inl f
                      | Inr q \<Rightarrow>
                          if version d = 0 then
                            (case to_u16 (f32_scale_trunc q) of
                               Inl f \<Rightarrow> Inl f
                             | Inr q' \<Rightarrow> Inr (True, q', d', uart'))
                          else Inr (True, q, d', uart'))"
proof -
  from read_loop_loop_values
    [where d = d and rx = "take (nbytes_of rx) rx" and s = 0 and n = 0, OF refl refl]
  obtain d' where
    rl: "read_loop (take (nbytes_of rx) rx) False 0 0 d =
          Inr (foldl f32_add 0 (loop_values (version d) (header d) (take (nbytes_of rx) rx)),
               0 + word_of_nat (length (loop_values (version d) (header d) (take (nbytes_of rx) rx))),
               d')"
    and l: "latch d' = latch d" by blast
  from l have v: "version d' = version d" by (simp add: latch_def)
  show ?thesis
    using assms l rl v
    by (intro exI [of _ d'])
       (simp add: get_reading_def detect_version_def Let_def split: sum.splits)
qed

lemma get_reading_unresolved:
  assumes "\<not> version_known d"
  shows "get_reading d (Some rx) r =
           (case detect_loop (take (nbytes_of rx) rx) False 0 0 d of
              (True, d1, rx1) \<Rightarrow> get_reading d1 (Some (rx1 @ drop (nbytes_of rx) rx)) r
            | (False, d1, rx1) \<Rightarrow> Inr (False, r, d1, Some (rx1 @ drop (nbytes_of rx) rx)))"
proof -
  obtain b d1 rx1 where dl: "detect_loop (take (nbytes_of rx) rx) False 0 0 d = (b, d1, rx1)"
    by (metis prod_cases3)
  from detect_loop_result [OF dl] have k: "b \<Longrightarrow> version_known d1" by simp
  show ?thesis
  proof (cases b)
    case True
    with k have "version_known d1" by simp
    then show ?thesis using assms dl True
      by (simp add: get_reading_def detect_version_def)
  next
    case False
    then show ?thesis using assms dl
      by (simp add: get_reading_def detect_version_def)
  qed
qed

lemma get_reading_no_uart: "get_reading d None r = Inr (False, r, d, None)"
  by (simp add: get_reading_def)

text \<open>What every call of \<open>get_reading\<close> leaves behind.\<close>

lemma get_reading_outcome:
  "case get_reading d uart r of
     Inl f \<Rightarrow> f = Float_To_U16_Undefined
   | Inr (b, r', d', uart') \<Rightarrow>
       (version_known d \<longrightarrow> latch d' = latch d) \<and> (b \<longrightarrow> version_known d')"
proof -
  have res: "case get_reading d (Some rx) r of
     Inl f \<Rightarrow> f = Float_To_U16_Undefined
   | Inr (b, r', d', uart') \<Rightarrow> latch d' = latch d" if "version_known d" for d rx
  proof -
    from get_reading_resolved [OF that, of rx r] obtain d' where
      "latch d' = latch d" and
      "get_reading d (Some rx) r =
             (let vs = loop_values (version d) (header d) (take (nbytes_of rx) rx);
                  fsum = foldl f32_add 0 vs;
                  count = (word_of_nat (length vs) :: u16);
                  uart' = Some (drop (nbytes_of rx) rx)
              in if count = 0 then Inr (False, r, d', uart')
                 else case to_u16 (f32_div_trunc fsum (unat count)) of
                        Inl f \<Rightarrow> Inl f
                      | Inr q \<Rightarrow>
                          if version d = 0 then
                            (case to_u16 (f32_scale_trunc q) of
                               Inl f \<Rightarrow> Inl f
                             | Inr q' \<Rightarrow> Inr (True, q', d', uart'))
                          else Inr (True, q, d', uart'))" by blast
    then show ?thesis
      by (simp add: Let_def to_u16_def split: sum.splits if_splits)
  qed
  show ?thesis
  proof (cases uart)
    case None
    then show ?thesis by (simp add: get_reading_no_uart)
  next
    case (Some rx)
    show ?thesis
    proof (cases "version_known d")
      case True
      with res [OF True, of rx] Some show ?thesis
        by (auto simp: latch_def split: sum.splits)
    next
      case False
      obtain b d1 rx1 where
        dl: "detect_loop (take (nbytes_of rx) rx) False 0 0 d = (b, d1, rx1)"
        by (metis prod_cases3)
      show ?thesis
      proof (cases b)
        case True
        with detect_loop_result [OF dl] have k: "version_known d1" by simp
        from res [OF k, of "rx1 @ drop (nbytes_of rx) rx"] show ?thesis
          using Some False dl True k
          by (auto simp: get_reading_unresolved latch_def split: sum.splits)
      next
        case b: False
        then show ?thesis using Some False dl by (simp add: get_reading_unresolved)
      qed
    qed
  qed
qed

lemma update_outcome:
  "case update update_status no_data millis s uart of
     Inl f \<Rightarrow> f = Float_To_U16_Undefined
   | Inr (s', uart') \<Rightarrow> version_known (drv s) \<longrightarrow> latch (drv s') = latch (drv s)"
  using get_reading_outcome [of "drv s" uart "distance_cm s"]
  by (auto simp: update_def split: sum.splits bool.splits)

subsection \<open>The frame buffer is never written out of bounds\<close>

text \<open>
  C10. For every driver state (whatever earlier calls left in \<open>linebuf_len\<close>, even a
  value of 6 or more) and every input, each write \<open>linebuf[linebuf_len++]\<close> happens at
  an index below the capacity 6: the loop of \<open>get_reading\<close> runs to its end without
  the overrun fault, and so do \<open>get_reading\<close> and \<open>update\<close>.
\<close>

theorem linebuf_write_in_bounds:
  "(\<exists>fsum' count' d'. read_loop rx False fsum count d = Inr (fsum', count', d'))
   \<and> get_reading d uart r \<noteq> Inl Linebuf_Overrun
   \<and> update update_status no_data millis s uart \<noteq> Inl Linebuf_Overrun"
proof (intro conjI)
  from read_loop_loop_values [where d = d and rx = rx and s = fsum and n = count, OF refl refl]
  show "\<exists>fsum' count' d'. read_loop rx False fsum count d = Inr (fsum', count', d')"
    by blast
  show "get_reading d uart r \<noteq> Inl Linebuf_Overrun"
    using get_reading_outcome [of d uart r] by (auto split: sum.splits)
  show "update update_status no_data millis s uart \<noteq> Inl Linebuf_Overrun"
    using update_outcome [where update_status = update_status and no_data = no_data
        and millis = millis and s = s and uart = uart] by (auto split: sum.splits)
qed

text \<open>The equations that evaluate the driver on concrete bytes.\<close>

lemmas driver_eval =
  get_reading_def detect_version_def update_def nbytes_of_small linebuf_size_def checksum_ok_def raw_v0_def
  raw_v1_def f32_add_def f32_rnd_exact f32_div_trunc_exact f32_scale_trunc_def to_u16_def
  ULANDING_HDR_def ULANDING_HDR_V0_def latch_def dialect_of_def outcome_of_def

theorem linebuf_write_in_bounds_witness:
  "(\<exists>fsum' count' d'.
      read_loop [254, 1, 2, 3, 4, 10, 254, 7] False 0 0
        \<lparr>version_known = True, version = 1, header = 254,
         linebuf = Linebuf 0 0 0 0 0 0, linebuf_len = 200\<rparr> = Inr (fsum', count', d'))
   \<and> get_reading \<lparr>version_known = True, version = 1, header = 254,
         linebuf = Linebuf 0 0 0 0 0 0, linebuf_len = 200\<rparr> (Some [254, 1, 2, 3, 4, 10, 254, 7]) 0
       \<noteq> Inl Linebuf_Overrun
   \<and> update (\<lambda>r. True) False 1000
        \<lparr>drv = \<lparr>version_known = True, version = 1, header = 254,
                 linebuf = Linebuf 0 0 0 0 0 0, linebuf_len = 200\<rparr>,
         distance_cm = 0, last_reading_ms = 0, status = False\<rparr>
        (Some [254, 1, 2, 3, 4, 10, 254, 7]) \<noteq> Inl Linebuf_Overrun"
  by (rule linebuf_write_in_bounds)

subsection \<open>The detected version is written once\<close>

text \<open>
  C4. A call of \<open>detect_version\<close> that returns true leaves \<open>_version_known\<close> set.
  From then on \<open>detect_version\<close> returns true at once and reads no byte (the serial
  port comes back as it was), and \<open>get_reading\<close> and \<open>update\<close>, whatever bytes they
  are given, leave \<open>_version_known\<close>, \<open>_version\<close> and \<open>_header\<close> as they were. The
  only way such a call does not return is the float-to-integer conversion fault, never
  a store to these fields.
\<close>

theorem version_latch_write_once:
  "(fst (detect_version d0 uart0) \<longrightarrow> version_known (fst (snd (detect_version d0 uart0))))
   \<and> (version_known d \<longrightarrow>
        detect_version d uart = (True, d, uart)
        \<and> (case get_reading d uart r of
              Inl f \<Rightarrow> f = Float_To_U16_Undefined
            | Inr (b, r', d', uart') \<Rightarrow> latch d' = latch d)
        \<and> (case update update_status no_data millis (s\<lparr>drv := d\<rparr>) uart of
              Inl f \<Rightarrow> f = Float_To_U16_Undefined
            | Inr (s', uart') \<Rightarrow> latch (drv s') = latch d))"
proof (intro conjI impI)
  assume "fst (detect_version d0 uart0)"
  then show "version_known (fst (snd (detect_version d0 uart0)))"
    by (auto simp: detect_version_def split: if_splits option.splits prod.splits
             dest: detect_loop_result)
next
  assume "version_known d"
  then show "detect_version d uart = (True, d, uart)" by (simp add: detect_version_def)
next
  assume "version_known d"
  then show "case get_reading d uart r of
      Inl f \<Rightarrow> f = Float_To_U16_Undefined
    | Inr (b, r', d', uart') \<Rightarrow> latch d' = latch d"
    using get_reading_outcome [of d uart r] by (auto split: sum.splits)
next
  assume "version_known d"
  then show "case update update_status no_data millis (s\<lparr>drv := d\<rparr>) uart of
      Inl f \<Rightarrow> f = Float_To_U16_Undefined
    | Inr (s', uart') \<Rightarrow> latch (drv s') = latch d"
    using update_outcome [where update_status = update_status and no_data = no_data
        and millis = millis and s = "s\<lparr>drv := d\<rparr>" and uart = uart]
    by (auto split: sum.splits)
qed

theorem version_latch_write_once_witness:
  "fst (detect_version \<lparr>version_known = False, version = 0, header = 0,
                        linebuf = Linebuf 0 0 0 0 0 0, linebuf_len = 0\<rparr>
         (Some [72, 1, 2, 72, 3]))
   \<and> version_known (fst (snd (detect_version \<lparr>version_known = False, version = 0, header = 0,
                        linebuf = Linebuf 0 0 0 0 0 0, linebuf_len = 0\<rparr>
         (Some [72, 1, 2, 72, 3]))))
   \<and> version_known \<lparr>version_known = True, version = 0, header = 72,
                     linebuf = Linebuf 0 0 0 0 0 0, linebuf_len = 0\<rparr>
   \<and> detect_version \<lparr>version_known = True, version = 0, header = 72,
                      linebuf = Linebuf 0 0 0 0 0 0, linebuf_len = 0\<rparr> (Some [254, 1, 254, 1])
       = (True, \<lparr>version_known = True, version = 0, header = 72,
                 linebuf = Linebuf 0 0 0 0 0 0, linebuf_len = 0\<rparr>, Some [254, 1, 254, 1])
   \<and> (case get_reading \<lparr>version_known = True, version = 0, header = 72,
                      linebuf = Linebuf 0 0 0 0 0 0, linebuf_len = 0\<rparr> (Some [254, 1, 254, 1]) 0 of
         Inl f \<Rightarrow> f = Float_To_U16_Undefined
       | Inr (b, r', d', uart') \<Rightarrow> latch d' = (True, 0, 72))
   \<and> (case update (\<lambda>r. True) False 1000
              \<lparr>drv = \<lparr>version_known = True, version = 0, header = 72,
                      linebuf = Linebuf 0 0 0 0 0 0, linebuf_len = 0\<rparr>,
               distance_cm = 0, last_reading_ms = 0, status = False\<rparr> (Some [254, 1, 254, 1]) of
         Inl f \<Rightarrow> f = Float_To_U16_Undefined
       | Inr (s', uart') \<Rightarrow> latch (drv s') = (True, 0, 72))"
  using version_latch_write_once
    [where ?d0.0 = "\<lparr>version_known = False, version = 0, header = 0,
          linebuf = Linebuf 0 0 0 0 0 0, linebuf_len = 0\<rparr>"
       and uart0 = "Some [72, 1, 2, 72, 3]"
       and d = "\<lparr>version_known = True, version = 0, header = 72,
           linebuf = Linebuf 0 0 0 0 0 0, linebuf_len = 0\<rparr>"
       and uart = "Some [254, 1, 254, 1]" and r = 0
       and update_status = "\<lambda>r. True" and no_data = False and millis = 1000
       and s = "\<lparr>drv = \<lparr>version_known = True, version = 0, header = 72,
                      linebuf = Linebuf 0 0 0 0 0 0, linebuf_len = 0\<rparr>,
               distance_cm = 0, last_reading_ms = 0, status = False\<rparr>"]
  by (simp add: driver_eval)

subsection \<open>Bounds on the raw values, and the result in terms of the loop\<close>

lemma unat_and_127: "unat ((x::u8) AND 0x7F) \<le> 127"
proof -
  have "(x AND 0x7F) \<le> 0x7F" by (rule word_and_le1)
  then have "unat (x AND 0x7F) \<le> unat (0x7F :: u8)" by (simp add: word_le_nat_alt)
  then show ?thesis by simp
qed

lemma unat_u8_le: "unat (x::u8) \<le> 255"
  using unsigned_less [of x, where ?'a = nat] by simp

lemma raw_v0_le: "raw_v0 lb \<le> 16383"
  using unat_and_127 [of "lb_get lb 2"] unat_and_127 [of "lb_get lb 1"]
  by (simp add: raw_v0_def)

lemma raw_v1_le: "raw_v1 lb \<le> 65535"
  using unat_u8_le [of "lb_get lb 3"] unat_u8_le [of "lb_get lb 2"]
  by (simp add: raw_v1_def)

lemma loop_values_le:
  "x \<in> set (loop_values v h rx) \<Longrightarrow> x \<le> (if v = 0 then 16383 else 65535)"
proof (induction v h rx rule: loop_values.induct)
  case (1 v h)
  then show ?case by simp
next
  case (2 v h c rx)
  then show ?case
    using raw_v0_le raw_v1_le by (auto simp: Let_def split: if_splits)
qed

lemma sum_list_le: "(\<And>x. x \<in> set vs \<Longrightarrow> x \<le> (B::nat)) \<Longrightarrow> sum_list vs \<le> B * length vs"
  by (induction vs) (auto simp: add_mono)


lemma outcome_of_resolved:
  assumes "version_known d"
  shows "outcome_of (get_reading d (Some rx) r) =
           (let vs = loop_values (version d) (header d) (take (nbytes_of rx) rx);
                fsum = foldl f32_add 0 vs;
                count = (word_of_nat (length vs) :: u16);
                uart' = Some (drop (nbytes_of rx) rx)
            in if count = 0 then Inr (False, r, latch d, uart')
               else case to_u16 (f32_div_trunc fsum (unat count)) of
                      Inl f \<Rightarrow> Inl f
                    | Inr q \<Rightarrow>
                        if version d = 0 then
                          (case to_u16 (f32_scale_trunc q) of
                             Inl f \<Rightarrow> Inl f
                           | Inr q' \<Rightarrow> Inr (True, q', latch d, uart'))
                        else Inr (True, q, latch d, uart'))"
proof -
  from get_reading_resolved [OF assms, of rx r] obtain d' where
    l: "latch d' = latch d" and
    g: "get_reading d (Some rx) r =
             (let vs = loop_values (version d) (header d) (take (nbytes_of rx) rx);
                  fsum = foldl f32_add 0 vs;
                  count = (word_of_nat (length vs) :: u16);
                  uart' = Some (drop (nbytes_of rx) rx)
              in if count = 0 then Inr (False, r, d', uart')
                 else case to_u16 (f32_div_trunc fsum (unat count)) of
                        Inl f \<Rightarrow> Inl f
                      | Inr q \<Rightarrow>
                          if version d = 0 then
                            (case to_u16 (f32_scale_trunc q) of
                               Inl f \<Rightarrow> Inl f
                             | Inr q' \<Rightarrow> Inr (True, q', d', uart'))
                          else Inr (True, q, d', uart'))" by blast
  show ?thesis unfolding g using l
    by (simp add: outcome_of_def Let_def split: sum.splits)
qed

lemma outcome_of_same_latch:
  assumes l: "latch d1 = latch d2" and k: "version_known d1"
  shows "outcome_of (get_reading d1 (Some rx) r) = outcome_of (get_reading d2 (Some rx) r)"
proof -
  from l k have k2: "version_known d2" and v: "version d2 = version d1"
    and h: "header d2 = header d1" by (simp_all add: latch_def)
  show ?thesis
    unfolding outcome_of_resolved [OF k] outcome_of_resolved [OF k2] v h l [symmetric] ..
qed

text \<open>The call in terms of what its loop returns, with the version known.\<close>

lemma get_reading_by_loop:
  assumes "version_known d"
  shows "\<exists>fsum count d'.
           read_loop (take (nbytes_of rx) rx) False 0 0 d = Inr (fsum, count, d')
           \<and> version d' = version d
           \<and> get_reading d (Some rx) r =
               (if count = 0 then Inr (False, r, d', Some (drop (nbytes_of rx) rx))
                else case to_u16 (f32_div_trunc fsum (unat count)) of
                       Inl f \<Rightarrow> Inl f
                     | Inr q \<Rightarrow>
                         if version d = 0 then
                           (case to_u16 (unat q * 5 div 2) of
                              Inl f \<Rightarrow> Inl f
                            | Inr q' \<Rightarrow> Inr (True, q', d', Some (drop (nbytes_of rx) rx)))
                         else Inr (True, q, d', Some (drop (nbytes_of rx) rx)))"
proof -
  from read_loop_loop_values
    [where d = d and rx = "take (nbytes_of rx) rx" and s = 0 and n = 0, OF refl refl]
  obtain fsum count d' where
    rl: "read_loop (take (nbytes_of rx) rx) False 0 0 d = Inr (fsum, count, d')"
    and l: "latch d' = latch d" by blast
  from l have v: "version d' = version d" by (simp add: latch_def)
  show ?thesis
    using assms rl v
    by (intro exI [of _ fsum] exI [of _ count] exI [of _ d'])
       (simp add: get_reading_def detect_version_def Let_def f32_scale_trunc_def
          split: sum.splits)
qed

text \<open>
  With version 0 stored and a sum that single precision still holds exactly, the reading
  is the truncated quotient of sum and count, times 2.5, truncated: no conversion can fail,
  since a legacy value is below \<open>2^14\<close>.
\<close>

lemma get_reading_legacy_scaled:
  assumes k: "version_known d" and v: "version d = 0"
    and rl: "read_loop (take (nbytes_of rx) rx) False 0 0 d = Inr (fsum, count, d')"
    and cnz: "count \<noteq> 0" and small: "fsum < 2 ^ 24"
  shows "get_reading d (Some rx) r =
           Inr (True, word_of_nat ((fsum div unat count) * 5 div 2), d',
                Some (drop (nbytes_of rx) rx))"
proof -
  define vs where "vs = loop_values (version d) (header d) (take (nbytes_of rx) rx)"
  from read_loop_loop_values
    [where d = d and rx = "take (nbytes_of rx) rx" and s = 0 and n = 0, OF refl refl] rl
  have fs: "fsum = foldl f32_add 0 vs" and cn: "count = word_of_nat (length vs)"
    by (auto simp: vs_def)
  have "6 * length vs \<le> length (take (nbytes_of rx) rx)"
    unfolding vs_def by (rule loop_values_length)
  also have "\<dots> \<le> 32767" using nbytes_of_le [of rx] by simp
  finally have len: "length vs < 65536" by simp
  then have uc: "unat count = length vs" by (simp add: cn unat_of_nat)
  with cnz have pos: "0 < length vs" by (cases vs) (simp_all add: cn)
  from small have ex: "fsum = sum_list vs"
    using foldl_f32_add_small [of 0 vs] by (simp add: fs)
  define m where "m = fsum div unat count"
  have "sum_list vs \<le> 16383 * length vs"
    by (rule sum_list_le) (use loop_values_le [of _ "version d" "header d"] v vs_def in auto)
  then have "m * length vs \<le> 16383 * length vs"
    unfolding m_def uc ex using div_times_less_eq_dividend [of "sum_list vs" "length vs"]
    by linarith
  with pos have mB: "m \<le> 16383" by simp
  have dv: "f32_div_trunc fsum (unat count) = m"
    unfolding m_def using small pos uc len by (intro f32_div_trunc_exact) simp_all
  have m16: "to_u16 m = Inr (word_of_nat m)" using mB by (simp add: to_u16_def)
  have um: "unat (word_of_nat m :: u16) = m" using mB by (simp add: unat_of_nat)
  from mB have "m * 5 div 2 < 65536" by simp
  then have sc: "to_u16 (f32_scale_trunc (word_of_nat m)) = Inr (word_of_nat (m * 5 div 2))"
    by (simp add: to_u16_def f32_scale_trunc_def um)
  have "version d' = version d"
    using read_loop_loop_values
      [where d = d and rx = "take (nbytes_of rx) rx" and s = 0 and n = 0, OF refl refl] rl
    by (auto simp: latch_def)
  then show ?thesis
    using k v rl cnz
    by (simp add: get_reading_def detect_version_def Let_def dv m16 sc m_def [symmetric])
qed


lemma raw_v0_Linebuf:
  "raw_v0 (Linebuf b0 b1 b2 b3 b4 b5) = unat (b2 AND 0x7F) * 128 + unat (b1 AND 0x7F)"
  by (simp add: raw_v0_def)


lemma read_loop_one_frame:
  "read_loop [header d, b1, b2, b3, b4, b5] False 0 0 d =
     (let lb = Linebuf (header d) b1 b2 b3 b4 b5;
          d' = d\<lparr>linebuf := lb, linebuf_len := 0\<rparr>
      in if version d = 0 then Inr (f32_add 0 (raw_v0 lb), 1, d')
         else if checksum_ok lb then Inr (f32_add 0 (raw_v1 lb), 1, d')
         else Inr (0, 0, d'))"
  using read_loop_frame [of d b1 b2 b3 b4 b5 "[]" 0 0]
  by (simp add: Let_def del: read_loop.simps(2))

lemma get_reading_v0_frame:
  assumes "version_known d" "version d = 0"
  shows "get_reading d (Some [header d, b1, b2, b3, b4, b5]) r =
           Inr (True, word_of_nat ((unat (b2 AND 0x7F) * 128 + unat (b1 AND 0x7F)) * 5 div 2),
                d\<lparr>linebuf := Linebuf (header d) b1 b2 b3 b4 b5, linebuf_len := 0\<rparr>, Some [])"
proof -
  define raw where "raw = unat (b2 AND 0x7F) * 128 + unat (b1 AND 0x7F)"
  have le: "raw \<le> 16383"
    using raw_v0_le [of "Linebuf (header d) b1 b2 b3 b4 b5"] by (simp add: raw_v0_Linebuf raw_def)
  then have u: "unat (word_of_nat raw :: u16) = raw" by (simp add: unat_of_nat)
  from le have sc: "raw * 5 div 2 < 65536" by simp
  show ?thesis
    using assms le sc
    by (simp add: get_reading_def detect_version_def nbytes_of_small read_loop_one_frame
          raw_v0_Linebuf raw_def [symmetric] f32_add_def f32_rnd_exact f32_div_trunc_exact
          to_u16_def f32_scale_trunc_def u del: read_loop.simps)
qed





lemma read_loop_prefix:
  "header d \<notin> set pre \<Longrightarrow>
   read_loop (pre @ rx) False fsum count d = read_loop rx False fsum count d"
  by (induction pre) (auto simp: read_loop_skip simp del: read_loop.simps)

lemma detect_version_small:
  assumes "\<not> version_known d" and "length rx \<le> 32767"
  shows "detect_version d (Some rx) =
           (case detect_loop rx False 0 0 d of (r, d', rx') \<Rightarrow> (r, d', Some rx'))"
  using assms by (simp add: detect_version_def nbytes_of_small)

subsection \<open>Legacy frames\<close>

text \<open>
  C1. With the legacy dialect resolved (\<open>_version_known\<close> set, \<open>_version = 0\<close>), a header
  byte followed by two bytes is not yet a frame for \<open>get_reading\<close>: the test
  \<open>linebuf_len < 6 || (_version == 0 && linebuf_len < 3)\<close> lets nothing through before six
  bytes, although the comment above it announces three bytes for version 0. On exactly
  \<open>[header, lo, hi]\<close> the call returns false, leaves \<open>reading_cm\<close> alone and keeps three
  bytes in the buffer. Three more bytes of any value complete the frame; it is then always
  accepted with \<open>(hi & 0x7F) * 128 + (lo & 0x7F)\<close>, scaled by 2.5 and truncated.
\<close>

theorem legacy_frame_not_decoded_at_three_bytes:
  assumes "version_known d" and "version d = 0"
  shows "get_reading d (Some [header d, lo, hi]) r =
           Inr (False, r,
                d\<lparr>linebuf := lb_set (lb_set (lb_set (linebuf d) 0 (header d)) 1 lo) 2 hi,
                  linebuf_len := 3\<rparr>, Some [])
       \<and> get_reading d (Some [header d, lo, hi, x, y, z]) r =
           Inr (True, word_of_nat ((unat (hi AND 0x7F) * 128 + unat (lo AND 0x7F)) * 5 div 2),
                d\<lparr>linebuf := Linebuf (header d) lo hi x y z, linebuf_len := 0\<rparr>, Some [])"
proof
  show "get_reading d (Some [header d, lo, hi]) r =
           Inr (False, r,
                d\<lparr>linebuf := lb_set (lb_set (lb_set (linebuf d) 0 (header d)) 1 lo) 2 hi,
                  linebuf_len := 3\<rparr>, Some [])"
    using assms
    by (simp add: get_reading_def detect_version_def nbytes_of_small linebuf_size_def)
  show "get_reading d (Some [header d, lo, hi, x, y, z]) r =
           Inr (True, word_of_nat ((unat (hi AND 0x7F) * 128 + unat (lo AND 0x7F)) * 5 div 2),
                d\<lparr>linebuf := Linebuf (header d) lo hi x y z, linebuf_len := 0\<rparr>, Some [])"
    using assms by (rule get_reading_v0_frame)
qed

theorem legacy_frame_not_decoded_at_three_bytes_witness:
  "get_reading \<lparr>version_known = True, version = 0, header = 0x48,
                 linebuf = Linebuf 0 0 0 0 0 0, linebuf_len = 0\<rparr> (Some [0x48, 10, 0]) 7 =
     Inr (False, 7,
          \<lparr>version_known = True, version = 0, header = 0x48,
           linebuf = Linebuf 0x48 10 0 0 0 0, linebuf_len = 3\<rparr>, Some [])
   \<and> get_reading \<lparr>version_known = True, version = 0, header = 0x48,
                 linebuf = Linebuf 0 0 0 0 0 0, linebuf_len = 0\<rparr>
        (Some [0x48, 10, 0, 0x48, 20, 0]) 7 =
     Inr (True, 25,
          \<lparr>version_known = True, version = 0, header = 0x48,
           linebuf = Linebuf 0x48 10 0 0x48 20 0, linebuf_len = 0\<rparr>, Some [])"
  using legacy_frame_not_decoded_at_three_bytes
    [where d = "\<lparr>version_known = True, version = 0, header = 0x48,
                 linebuf = Linebuf 0 0 0 0 0 0, linebuf_len = 0\<rparr>"
       and lo = 10 and hi = 0 and x = "0x48" and y = 20 and z = 0 and r = 7]
  by simp

subsection \<open>What detect\_version makes of its input\<close>

text \<open>
  C2. When the loop of \<open>detect_version\<close> meets \<open>0xFE\<close> while no header candidate is
  pending, and the next byte \<open>v\<close> has its high bit clear and is not \<open>0x48\<close>, it stores
  version \<open>v\<close> and header byte \<open>0xFE\<close>, sets \<open>_version_known\<close>, returns true and leaves
  the bytes behind the pair unread. For an unresolved driver with at most 32767 bytes
  waiting (the \<open>int16_t\<close> counter lets no more through) this is so when neither
  \<open>0x48\<close> nor \<open>0xFE\<close> occurs in front of the pair. The dialect \<open>get_reading\<close> then
  decodes is the checksummed one unless \<open>v\<close> is 0.
\<close>

theorem detect_version_pair_when_searching:
  assumes "v AND 0x80 = 0" and "v \<noteq> ULANDING_HDR_V0"
  shows "detect_loop (ULANDING_HDR # v # rest) False byte1 count d =
           (True, d\<lparr>version := v, header := ULANDING_HDR, version_known := True\<rparr>, rest)
       \<and> (\<not> version_known d \<longrightarrow> ULANDING_HDR_V0 \<notin> set pre \<longrightarrow> ULANDING_HDR \<notin> set pre \<longrightarrow>
            length (pre @ ULANDING_HDR # v # rest) \<le> 32767 \<longrightarrow>
            detect_version d (Some (pre @ ULANDING_HDR # v # rest)) =
              (True, d\<lparr>version := v, header := ULANDING_HDR, version_known := True\<rparr>, Some rest)
            \<and> dialect_of (d\<lparr>version := v, header := ULANDING_HDR, version_known := True\<rparr>)
                = (if v = 0 then LegacyV0 else ChecksummedV1))"
proof (intro conjI impI)
  show "detect_loop (ULANDING_HDR # v # rest) False byte1 count d =
           (True, d\<lparr>version := v, header := ULANDING_HDR, version_known := True\<rparr>, rest)"
    using assms by (rule detect_loop_v1)
  show "dialect_of (d\<lparr>version := v, header := ULANDING_HDR, version_known := True\<rparr>)
                = (if v = 0 then LegacyV0 else ChecksummedV1)"
    by (simp add: dialect_of_def)
  assume u: "\<not> version_known d" and p: "ULANDING_HDR_V0 \<notin> set pre" "ULANDING_HDR \<notin> set pre"
    and len: "length (pre @ ULANDING_HDR # v # rest) \<le> 32767"
  have "detect_loop (pre @ ULANDING_HDR # v # rest) False 0 0 d =
          detect_loop (ULANDING_HDR # v # rest) False 0 0 d"
    by (rule detect_loop_prefix [OF p])
  also have "\<dots> =
          (True, d\<lparr>version := v, header := ULANDING_HDR, version_known := True\<rparr>, rest)"
    using assms by (rule detect_loop_v1)
  finally show "detect_version d (Some (pre @ ULANDING_HDR # v # rest)) =
              (True, d\<lparr>version := v, header := ULANDING_HDR, version_known := True\<rparr>, Some rest)"
    by (simp only: detect_version_small [OF u len] prod.case)
qed

theorem detect_version_pair_when_searching_witness:
  "detect_loop [0xFE, 0x01, 0x02] False 0 0
      \<lparr>version_known = False, version = 0, header = 0,
       linebuf = Linebuf 0 0 0 0 0 0, linebuf_len = 0\<rparr> =
     (True, \<lparr>version_known = True, version = 1, header = 0xFE,
             linebuf = Linebuf 0 0 0 0 0 0, linebuf_len = 0\<rparr>, [0x02])
   \<and> detect_version \<lparr>version_known = False, version = 0, header = 0,
                      linebuf = Linebuf 0 0 0 0 0 0, linebuf_len = 0\<rparr>
        (Some ([0x85, 0x03] @ [0xFE, 0x01, 0x02])) =
     (True, \<lparr>version_known = True, version = 1, header = 0xFE,
             linebuf = Linebuf 0 0 0 0 0 0, linebuf_len = 0\<rparr>, Some [0x02])
   \<and> dialect_of \<lparr>version_known = True, version = 1, header = 0xFE,
             linebuf = Linebuf 0 0 0 0 0 0, linebuf_len = 0\<rparr> = ChecksummedV1"
  using detect_version_pair_when_searching
    [where v = 1 and rest = "[0x02]" and ?byte1.0 = 0 and count = 0 and pre = "[0x85, 0x03]"
       and d = "\<lparr>version_known = False, version = 0, header = 0,
                 linebuf = Linebuf 0 0 0 0 0 0, linebuf_len = 0\<rparr>"]
  by (simp add: ULANDING_HDR_def ULANDING_HDR_V0_def del: detect_loop.simps)

text \<open>
  The pair alone is not enough: behind another \<open>0xFE\<close> the header byte of the pair is
  taken for the byte after a candidate, rejected for its high bit, and the scan ends
  unresolved.
\<close>

theorem detect_version_pair_counterexample:
  "detect_version \<lparr>version_known = False, version = 0, header = 0,
                    linebuf = Linebuf 0 0 0 0 0 0, linebuf_len = 0\<rparr> (Some [0xFE, 0xFE, 0x01]) =
     (False, \<lparr>version_known = False, version = 0, header = 0,
              linebuf = Linebuf 0 0 0 0 0 0, linebuf_len = 0\<rparr>, Some [])"
  by (simp add: detect_version_def nbytes_of_small ULANDING_HDR_def ULANDING_HDR_V0_def)

text \<open>
  C3. When a legacy candidate \<open>0x48\<close> is followed by two bytes and a fourth byte that is
  not \<open>0x48\<close>, the candidate is dropped and the fourth byte is consumed with it: the loop
  goes on behind the fourth byte as from its start, and an unresolved \<open>detect_version\<close>
  with at most 32767 bytes waiting returns what it returns on the bytes behind the fourth
  byte. The fourth byte is not looked at as a candidate: on \<open>[0x48, a, b, 0xFE, v]\<close>
  alone the call returns false and stays unresolved, whatever \<open>a\<close>, \<open>b\<close> and \<open>v\<close> are.
\<close>

theorem detect_version_fourth_byte_consumed:
  assumes "\<not> version_known d"
  shows "(c \<noteq> ULANDING_HDR_V0 \<longrightarrow>
            detect_loop (ULANDING_HDR_V0 # a # b # c # rest) False 0 0 d =
              detect_loop rest False 0 0 d)
       \<and> (c \<noteq> ULANDING_HDR_V0 \<longrightarrow> length (ULANDING_HDR_V0 # a # b # c # rest) \<le> 32767 \<longrightarrow>
            detect_version d (Some (ULANDING_HDR_V0 # a # b # c # rest)) =
              detect_version d (Some rest))
       \<and> detect_version d (Some [ULANDING_HDR_V0, a, b, ULANDING_HDR, v]) = (False, d, Some [])"
proof (intro conjI impI)
  assume c: "c \<noteq> ULANDING_HDR_V0"
  then show "detect_loop (ULANDING_HDR_V0 # a # b # c # rest) False 0 0 d =
              detect_loop rest False 0 0 d" by (rule detect_loop_v0_restart)
next
  assume c: "c \<noteq> ULANDING_HDR_V0" and len: "length (ULANDING_HDR_V0 # a # b # c # rest) \<le> 32767"
  from len have len': "length rest \<le> 32767" by simp
  show "detect_version d (Some (ULANDING_HDR_V0 # a # b # c # rest)) =
              detect_version d (Some rest)"
    by (simp only: detect_version_small [OF assms len] detect_version_small [OF assms len']
          detect_loop_v0_restart [OF c])
next
  have "detect_loop [ULANDING_HDR_V0, a, b, ULANDING_HDR, v] False 0 0 d = detect_loop [v] False 0 0 d"
    using hdr_neq by (intro detect_loop_v0_restart)
  also have "\<dots> = (False, d, [])" by simp
  finally show "detect_version d (Some [ULANDING_HDR_V0, a, b, ULANDING_HDR, v]) = (False, d, Some [])"
    using assms by (simp add: detect_version_def nbytes_of_small del: detect_loop.simps)
qed

theorem detect_version_fourth_byte_consumed_witness:
  "detect_version \<lparr>version_known = False, version = 0, header = 0,
                    linebuf = Linebuf 0 0 0 0 0 0, linebuf_len = 0\<rparr>
     (Some [0x48, 0x00, 0x00, 0xFE, 0x01, 0xFE, 0x01]) =
   detect_version \<lparr>version_known = False, version = 0, header = 0,
                    linebuf = Linebuf 0 0 0 0 0 0, linebuf_len = 0\<rparr> (Some [0x01, 0xFE, 0x01])
   \<and> detect_version \<lparr>version_known = False, version = 0, header = 0,
                    linebuf = Linebuf 0 0 0 0 0 0, linebuf_len = 0\<rparr> (Some [0x01, 0xFE, 0x01]) =
     (True, \<lparr>version_known = True, version = 1, header = 0xFE,
              linebuf = Linebuf 0 0 0 0 0 0, linebuf_len = 0\<rparr>, Some [])
   \<and> detect_version \<lparr>version_known = False, version = 0, header = 0,
                    linebuf = Linebuf 0 0 0 0 0 0, linebuf_len = 0\<rparr>
     (Some [0x48, 0x07, 0x09, 0xFE, 0x02]) =
     (False, \<lparr>version_known = False, version = 0, header = 0,
              linebuf = Linebuf 0 0 0 0 0 0, linebuf_len = 0\<rparr>, Some [])"
  using detect_version_fourth_byte_consumed
    [where d = "\<lparr>version_known = False, version = 0, header = 0,
                    linebuf = Linebuf 0 0 0 0 0 0, linebuf_len = 0\<rparr>"
       and a = 0 and b = 0 and c = "0xFE" and rest = "[0x01, 0xFE, 0x01]"]
    detect_version_fourth_byte_consumed
    [where d = "\<lparr>version_known = False, version = 0, header = 0,
                    linebuf = Linebuf 0 0 0 0 0 0, linebuf_len = 0\<rparr>"
       and a = 7 and b = 9 and v = 2]
  by (simp add: detect_version_def nbytes_of_small ULANDING_HDR_def ULANDING_HDR_V0_def)

text \<open>
  With \<open>0xFE\<close> as the fourth byte and a sub-version byte behind it, the call ends
  unresolved.
\<close>

theorem detect_version_fourth_byte_counterexample:
  "detect_version \<lparr>version_known = False, version = 0, header = 0,
                    linebuf = Linebuf 0 0 0 0 0 0, linebuf_len = 0\<rparr>
     (Some [0x48, 0x00, 0x00, 0xFE, 0x01]) =
     (False, \<lparr>version_known = False, version = 0, header = 0,
              linebuf = Linebuf 0 0 0 0 0 0, linebuf_len = 0\<rparr>, Some [])"
  by (simp add: detect_version_def nbytes_of_small ULANDING_HDR_def ULANDING_HDR_V0_def)


lemma get_reading_cong_small:
  assumes "version_known d" and "length rx1 \<le> 32767" and "length rx2 \<le> 32767"
    and "read_loop rx1 False 0 0 d = read_loop rx2 False 0 0 d"
  shows "get_reading d (Some rx1) r = get_reading d (Some rx2) r"
  using assms
  by (simp add: get_reading_def detect_version_def nbytes_of_small Let_def
        split: sum.splits prod.splits)

subsection \<open>Checksummed frames\<close>





subsection \<open>Nothing is carried from one call to the next\<close>

text \<open>
  C9. What an earlier call left in \<open>linebuf\<close> and \<open>linebuf_len\<close> never shows in a later
  one: two driver states with the same latch, however their frame buffers and buffer lengths
  differ, give the same result, reading, latch and unread bytes on the same input. The loop
  drops the bytes in front of the first header-valued byte without a trace, and with the
  version known and at most 32767 bytes waiting the whole call is the same as on the
  remaining bytes.
\<close>

theorem partial_frame_never_carried_over:
  "(latch d1 = latch d2 \<longrightarrow>
      outcome_of (get_reading d1 uart r) = outcome_of (get_reading d2 uart r))
   \<and> (header d \<notin> set pre \<longrightarrow>
        read_loop (pre @ rx) False fsum count d = read_loop rx False fsum count d)
   \<and> (version_known d \<longrightarrow> header d \<notin> set pre \<longrightarrow> length (pre @ rx) \<le> 32767 \<longrightarrow>
        get_reading d (Some (pre @ rx)) r = get_reading d (Some rx) r)"
proof (intro conjI impI)
  assume l: "latch d1 = latch d2"
  show "outcome_of (get_reading d1 uart r) = outcome_of (get_reading d2 uart r)"
  proof (cases uart)
    case None
    then show ?thesis using l by (simp add: get_reading_no_uart outcome_of_def)
  next
    case (Some bytes)
    show ?thesis
    proof (cases "version_known d1")
      case True
      then show ?thesis using Some l by (simp add: outcome_of_same_latch)
    next
      case False
      with l have u2: "\<not> version_known d2" by (simp add: latch_def)
      define n where "n = nbytes_of bytes"
      obtain b e1 rest where dl1: "detect_loop (take n bytes) False 0 0 d1 = (b, e1, rest)"
        by (metis prod_cases3)
      define e2 where "e2 =
        (if b then d2\<lparr>version := version e1, header := header e1, version_known := True\<rparr> else d2)"
      have dl2: "detect_loop (take n bytes) False 0 0 d2 = (b, e2, rest)"
        using detect_loop_indep [of "take n bytes" False 0 0 d2 d1] dl1 by (simp add: e2_def)
      show ?thesis
      proof (cases b)
        case True
        with detect_loop_result [OF dl1] have k1: "version_known e1" by simp
        with True have "latch e1 = latch e2" by (simp add: e2_def latch_def)
        from outcome_of_same_latch [OF this k1, of "rest @ drop n bytes" r] show ?thesis
          using Some False u2 dl1 dl2 True by (simp add: get_reading_unresolved n_def [symmetric])
      next
        case nb: False
        with detect_loop_result [OF dl1] have "e1 = d1" by simp
        moreover from nb have "e2 = d2" by (simp add: e2_def)
        ultimately show ?thesis
          using Some False u2 dl1 dl2 nb l
          by (simp add: get_reading_unresolved outcome_of_def n_def [symmetric])
      qed
    qed
  qed
next
  assume "header d \<notin> set pre"
  then show "read_loop (pre @ rx) False fsum count d = read_loop rx False fsum count d"
    by (rule read_loop_prefix)
next
  assume k: "version_known d" and n: "header d \<notin> set pre" and len: "length (pre @ rx) \<le> 32767"
  from len have len': "length rx \<le> 32767" by simp
  show "get_reading d (Some (pre @ rx)) r = get_reading d (Some rx) r"
    using k len len' by (rule get_reading_cong_small) (rule read_loop_prefix [OF n])
qed

theorem partial_frame_never_carried_over_witness:
  "latch \<lparr>version_known = True, version = 1, header = 254,
          linebuf = Linebuf 254 1 2 0 0 0, linebuf_len = 3\<rparr>
     = latch \<lparr>version_known = True, version = 1, header = 254,
          linebuf = Linebuf 0 0 0 0 0 0, linebuf_len = 0\<rparr>
   \<and> outcome_of (get_reading \<lparr>version_known = True, version = 1, header = 254,
                      linebuf = Linebuf 254 1 2 0 0 0, linebuf_len = 3\<rparr> (Some [3, 4, 10]) 7)
     = outcome_of (get_reading \<lparr>version_known = True, version = 1, header = 254,
                      linebuf = Linebuf 0 0 0 0 0 0, linebuf_len = 0\<rparr> (Some [3, 4, 10]) 7)
   \<and> outcome_of (get_reading \<lparr>version_known = True, version = 1, header = 254,
                      linebuf = Linebuf 254 1 2 0 0 0, linebuf_len = 3\<rparr> (Some [3, 4, 10]) 7)
     = Inr (False, 7, (True, 1, 254), Some [])
   \<and> version_known \<lparr>version_known = True, version = 1, header = 254,
          linebuf = Linebuf 254 1 2 0 0 0, linebuf_len = 3\<rparr>
   \<and> 254 \<notin> set [3, 4, 10 :: u8]
   \<and> get_reading \<lparr>version_known = True, version = 1, header = 254,
          linebuf = Linebuf 254 1 2 0 0 0, linebuf_len = 3\<rparr>
        (Some ([3, 4, 10] @ [254, 1, 100, 0, 0, 101])) 7
     = get_reading \<lparr>version_known = True, version = 1, header = 254,
          linebuf = Linebuf 254 1 2 0 0 0, linebuf_len = 3\<rparr>
        (Some [254, 1, 100, 0, 0, 101]) 7"
  using partial_frame_never_carried_over
    [where ?d1.0 = "\<lparr>version_known = True, version = 1, header = 254,
          linebuf = Linebuf 254 1 2 0 0 0, linebuf_len = 3\<rparr>"
       and ?d2.0 = "\<lparr>version_known = True, version = 1, header = 254,
          linebuf = Linebuf 0 0 0 0 0 0, linebuf_len = 0\<rparr>"
       and uart = "Some [3, 4, 10]" and r = 7
       and d = "\<lparr>version_known = True, version = 1, header = 254,
          linebuf = Linebuf 254 1 2 0 0 0, linebuf_len = 3\<rparr>"
       and pre = "[3, 4, 10]" and rx = "[254, 1, 100, 0, 0, 101]"]
  by (simp add: latch_def outcome_of_def get_reading_def detect_version_def nbytes_of_small)





subsection \<open>The reading and the mean of the accepted frames\<close>




subsection \<open>Sub-version 0 behind the new header byte\<close>

text \<open>
  C8. From the byte pair \<open>[0xFE, 0x00]\<close> the loop of \<open>detect_version\<close> stores version 0
  with header byte \<open>0xFE\<close>, and so does an unresolved \<open>detect_version\<close> with at most
  32767 bytes waiting. Whenever version 0 is stored, whatever the header byte,
  \<open>get_reading\<close> takes the legacy branch in every call: each completed frame adds
  \<open>(linebuf[2] & 0x7F) * 128 + (linebuf[1] & 0x7F)\<close> to the sum without looking at the
  checksum, and whenever the count is not 0 the quotient of sum and count is multiplied
  by 2.5 before it is returned. While the sum stays below \<open>2^24\<close> the reading is
  the truncated quotient times 2.5, truncated.
\<close>

theorem subversion_zero_decoded_as_legacy:
  "detect_loop (ULANDING_HDR # 0 # rest) False byte1 count0 d0 =
     (True, d0\<lparr>version := 0, header := ULANDING_HDR, version_known := True\<rparr>, rest)
   \<and> (\<not> version_known d0 \<longrightarrow> length (ULANDING_HDR # 0 # rest) \<le> 32767 \<longrightarrow>
        detect_version d0 (Some (ULANDING_HDR # 0 # rest)) =
          (True, d0\<lparr>version := 0, header := ULANDING_HDR, version_known := True\<rparr>, Some rest))
   \<and> dialect_of (d0\<lparr>version := 0, header := ULANDING_HDR, version_known := True\<rparr>) = LegacyV0
   \<and> (version_known d \<and> version d = 0 \<longrightarrow>
        read_loop (header d # b1 # b2 # b3 # b4 # b5 # rx) False fsum count d =
          read_loop rx False (f32_rnd (fsum + (unat (b2 AND 0x7F) * 128 + unat (b1 AND 0x7F))))
            (count + 1) (d\<lparr>linebuf := Linebuf (header d) b1 b2 b3 b4 b5, linebuf_len := 0\<rparr>)
        \<and> (fsum + (unat (b2 AND 0x7F) * 128 + unat (b1 AND 0x7F)) < 2 ^ 24 \<longrightarrow>
             read_loop (header d # b1 # b2 # b3 # b4 # b5 # rx) False fsum count d =
               read_loop rx False (fsum + (unat (b2 AND 0x7F) * 128 + unat (b1 AND 0x7F)))
                 (count + 1)
                 (d\<lparr>linebuf := Linebuf (header d) b1 b2 b3 b4 b5, linebuf_len := 0\<rparr>))
        \<and> (\<exists>s n d'.
              read_loop (take (nbytes_of bytes) bytes) False 0 0 d = Inr (s, n, d')
              \<and> get_reading d (Some bytes) r =
                  (if n = 0 then Inr (False, r, d', Some (drop (nbytes_of bytes) bytes))
                   else case to_u16 (f32_div_trunc s (unat n)) of
                          Inl f \<Rightarrow> Inl f
                        | Inr q \<Rightarrow>
                            (case to_u16 (unat q * 5 div 2) of
                               Inl f \<Rightarrow> Inl f
                             | Inr q' \<Rightarrow>
                                 Inr (True, q', d', Some (drop (nbytes_of bytes) bytes))))
              \<and> (n \<noteq> 0 \<longrightarrow> s < 2 ^ 24 \<longrightarrow>
                   get_reading d (Some bytes) r =
                     Inr (True, word_of_nat ((s div unat n) * 5 div 2), d',
                          Some (drop (nbytes_of bytes) bytes)))))"
proof (intro conjI impI)
  have z: "(0::u8) AND 0x80 = 0" "(0::u8) \<noteq> ULANDING_HDR_V0"
    by (simp_all add: ULANDING_HDR_V0_def)
  show l: "detect_loop (ULANDING_HDR # 0 # rest) False byte1 count0 d0 =
     (True, d0\<lparr>version := 0, header := ULANDING_HDR, version_known := True\<rparr>, rest)"
    using z by (rule detect_loop_v1)
  show "dialect_of (d0\<lparr>version := 0, header := ULANDING_HDR, version_known := True\<rparr>) = LegacyV0"
    by (simp add: dialect_of_def)
  {
    assume u: "\<not> version_known d0" and len: "length (ULANDING_HDR # 0 # rest) \<le> 32767"
    have "detect_loop (ULANDING_HDR # 0 # rest) False 0 0 d0 =
       (True, d0\<lparr>version := 0, header := ULANDING_HDR, version_known := True\<rparr>, rest)"
      using z by (rule detect_loop_v1)
    then show "detect_version d0 (Some (ULANDING_HDR # 0 # rest)) =
          (True, d0\<lparr>version := 0, header := ULANDING_HDR, version_known := True\<rparr>, Some rest)"
      by (simp only: detect_version_small [OF u len] prod.case)
  }
next
  assume a: "version_known d \<and> version d = 0"
  then show step: "read_loop (header d # b1 # b2 # b3 # b4 # b5 # rx) False fsum count d =
          read_loop rx False (f32_rnd (fsum + (unat (b2 AND 0x7F) * 128 + unat (b1 AND 0x7F))))
            (count + 1) (d\<lparr>linebuf := Linebuf (header d) b1 b2 b3 b4 b5, linebuf_len := 0\<rparr>)"
    by (simp add: read_loop_frame Let_def raw_v0_Linebuf f32_add_def del: read_loop.simps)
  {
    assume s: "fsum + (unat (b2 AND 0x7F) * 128 + unat (b1 AND 0x7F)) < 2 ^ 24"
    show "read_loop (header d # b1 # b2 # b3 # b4 # b5 # rx) False fsum count d =
               read_loop rx False (fsum + (unat (b2 AND 0x7F) * 128 + unat (b1 AND 0x7F)))
                 (count + 1)
                 (d\<lparr>linebuf := Linebuf (header d) b1 b2 b3 b4 b5, linebuf_len := 0\<rparr>)"
      unfolding step using f32_rnd_exact [OF s] by simp
  }
  from a have k: "version_known d" and v: "version d = 0" by simp_all
  from get_reading_by_loop [OF k, of bytes r] obtain s n d' where
    rl: "read_loop (take (nbytes_of bytes) bytes) False 0 0 d = Inr (s, n, d')"
    and g: "get_reading d (Some bytes) r =
               (if n = 0 then Inr (False, r, d', Some (drop (nbytes_of bytes) bytes))
                else case to_u16 (f32_div_trunc s (unat n)) of
                       Inl f \<Rightarrow> Inl f
                     | Inr q \<Rightarrow>
                         if version d = 0 then
                           (case to_u16 (unat q * 5 div 2) of
                              Inl f \<Rightarrow> Inl f
                            | Inr q' \<Rightarrow> Inr (True, q', d', Some (drop (nbytes_of bytes) bytes)))
                         else Inr (True, q, d', Some (drop (nbytes_of bytes) bytes)))"
    by blast
  show "\<exists>s n d'.
              read_loop (take (nbytes_of bytes) bytes) False 0 0 d = Inr (s, n, d')
              \<and> get_reading d (Some bytes) r =
                  (if n = 0 then Inr (False, r, d', Some (drop (nbytes_of bytes) bytes))
                   else case to_u16 (f32_div_trunc s (unat n)) of
                          Inl f \<Rightarrow> Inl f
                        | Inr q \<Rightarrow>
                            (case to_u16 (unat q * 5 div 2) of
                               Inl f \<Rightarrow> Inl f
                             | Inr q' \<Rightarrow>
                                 Inr (True, q', d', Some (drop (nbytes_of bytes) bytes))))
              \<and> (n \<noteq> 0 \<longrightarrow> s < 2 ^ 24 \<longrightarrow>
                   get_reading d (Some bytes) r =
                     Inr (True, word_of_nat ((s div unat n) * 5 div 2), d',
                          Some (drop (nbytes_of bytes) bytes)))"
  proof (intro exI [of _ s] exI [of _ n] exI [of _ d'] conjI impI)
    show "read_loop (take (nbytes_of bytes) bytes) False 0 0 d = Inr (s, n, d')" by (rule rl)
    show "get_reading d (Some bytes) r =
                  (if n = 0 then Inr (False, r, d', Some (drop (nbytes_of bytes) bytes))
                   else case to_u16 (f32_div_trunc s (unat n)) of
                          Inl f \<Rightarrow> Inl f
                        | Inr q \<Rightarrow>
                            (case to_u16 (unat q * 5 div 2) of
                               Inl f \<Rightarrow> Inl f
                             | Inr q' \<Rightarrow>
                                 Inr (True, q', d', Some (drop (nbytes_of bytes) bytes))))"
      unfolding g using v by (simp split: sum.splits)
    assume "n \<noteq> 0" "s < 2 ^ 24"
    with k v rl show "get_reading d (Some bytes) r =
                     Inr (True, word_of_nat ((s div unat n) * 5 div 2), d',
                          Some (drop (nbytes_of bytes) bytes))"
      by (rule get_reading_legacy_scaled)
  qed
qed

theorem subversion_zero_decoded_as_legacy_witness:
  "detect_version \<lparr>version_known = False, version = 7, header = 0,
                    linebuf = Linebuf 0 0 0 0 0 0, linebuf_len = 0\<rparr>
      (Some [0xFE, 0x00, 2, 3, 4, 99]) =
     (True, \<lparr>version_known = True, version = 0, header = 0xFE,
             linebuf = Linebuf 0 0 0 0 0 0, linebuf_len = 0\<rparr>, Some [2, 3, 4, 99])
   \<and> dialect_of \<lparr>version_known = True, version = 0, header = 0xFE,
             linebuf = Linebuf 0 0 0 0 0 0, linebuf_len = 0\<rparr> = LegacyV0
   \<and> read_loop [0xFE, 0x00, 4, 0, 0, 0] False 256 1
        \<lparr>version_known = True, version = 0, header = 0xFE,
         linebuf = Linebuf 0 0 0 0 0 0, linebuf_len = 0\<rparr> =
     Inr (768, 2, \<lparr>version_known = True, version = 0, header = 0xFE,
             linebuf = Linebuf 0xFE 0 4 0 0 0, linebuf_len = 0\<rparr>)
   \<and> get_reading \<lparr>version_known = True, version = 0, header = 0xFE,
             linebuf = Linebuf 0 0 0 0 0 0, linebuf_len = 0\<rparr>
        (Some [0xFE, 0x00, 2, 3, 4, 99, 0xFE, 0x00, 4, 0, 0, 0]) 7 =
     Inr (True, 960, \<lparr>version_known = True, version = 0, header = 0xFE,
             linebuf = Linebuf 0xFE 0 4 0 0 0, linebuf_len = 0\<rparr>, Some [])"
proof -
  have rl: "read_loop [0xFE, 0x00, 2, 3, 4, 99, 0xFE, 0x00, 4, 0, 0, 0] False 0 0
        \<lparr>version_known = True, version = 0, header = 0xFE,
         linebuf = Linebuf 0 0 0 0 0 0, linebuf_len = 0\<rparr> =
     Inr (768, 2, \<lparr>version_known = True, version = 0, header = 0xFE,
             linebuf = Linebuf 0xFE 0 4 0 0 0, linebuf_len = 0\<rparr>)"
    by (simp add: linebuf_size_def raw_v0_def f32_add_def f32_rnd_exact)
  show ?thesis
    using subversion_zero_decoded_as_legacy
      [where ?d0.0 = "\<lparr>version_known = False, version = 7, header = 0,
                      linebuf = Linebuf 0 0 0 0 0 0, linebuf_len = 0\<rparr>"
         and rest = "[2, 3, 4, 99]"
         and d = "\<lparr>version_known = True, version = 0, header = 0xFE,
               linebuf = Linebuf 0 0 0 0 0 0, linebuf_len = 0\<rparr>"
         and ?b1.0 = 0 and ?b2.0 = 4 and ?b3.0 = 0 and ?b4.0 = 0 and ?b5.0 = 0 and rx = "[]"
         and fsum = 256 and count = 1 and r = 7 and ?byte1.0 = 0 and ?count0.0 = 0
         and bytes = "[0xFE, 0x00, 2, 3, 4, 99, 0xFE, 0x00, 4, 0, 0, 0]"]
      rl
    by (auto simp: ULANDING_HDR_def nbytes_of_small f32_rnd_exact
             simp del: read_loop.simps(2) detect_loop.simps)
qed

end
